theory Spec2Isabelle
  imports Main "HOL-Library.Finite_Map" "HOL-Library.Word"
begin

section \<open>Data model of the relay (main.go)\<close>

text \<open>
  A connection handle is the pointer \<^verbatim>\<open>*websocket.Conn\<close>: opaque and comparable, here an
  address. The field \<^verbatim>\<open>rooms\<close> of the Broadcaster has the Go type
  \<^verbatim>\<open>map[string]map[*websocket.Conn]bool\<close>; both levels are finite maps, so that
  \<^verbatim>\<open>len\<close> is the number of keys.
\<close>

type_synonym conn = nat
type_synonym members = "(conn, bool) fmap"
type_synonym registry = "(string, members) fmap"
type_synonym payload = "8 word list"

subsection \<open>Go's built-in map operations\<close>

text \<open>\<^verbatim>\<open>len(m)\<close>: the number of keys; 0 for a nil map.\<close>

definition go_len :: "('k, 'v) fmap \<Rightarrow> nat" where
  "go_len m = fcard (fmdom m)"

text \<open>
  \<^verbatim>\<open>b.rooms[roomName]\<close> read as a value: the inner map, or the nil map (no keys) when
  the room is absent. On a nil map \<^verbatim>\<open>len\<close> is 0, \<^verbatim>\<open>delete\<close> does nothing and
  \<^verbatim>\<open>range\<close> runs no iteration, so for reading a nil map is the empty one.
\<close>

definition index_rooms :: "registry \<Rightarrow> string \<Rightarrow> members" where
  "index_rooms rs roomName =
     (case fmlookup rs roomName of None \<Rightarrow> fmempty | Some m \<Rightarrow> m)"

text \<open>
  \<^verbatim>\<open>b.rooms[roomName][conn] = true\<close>: the inner map is a reference held by the outer
  one, so the assignment is seen through the registry. Assigning into a nil map panics
  (\<open>None\<close>).
\<close>

definition assign_member :: "registry \<Rightarrow> string \<Rightarrow> conn \<Rightarrow> bool \<Rightarrow> registry option" where
  "assign_member rs roomName c v =
     (case fmlookup rs roomName of
        None \<Rightarrow> None
      | Some m \<Rightarrow> Some (fmupd roomName (fmupd c v m) rs))"

text \<open>\<^verbatim>\<open>delete(b.rooms[roomName], conn)\<close>: nothing happens on a nil map or a missing key.\<close>

definition delete_member :: "registry \<Rightarrow> string \<Rightarrow> conn \<Rightarrow> registry" where
  "delete_member rs roomName c =
     (case fmlookup rs roomName of
        None \<Rightarrow> rs
      | Some m \<Rightarrow> fmupd roomName (fmdrop c m) rs)"

text \<open>
  \<^verbatim>\<open>for client := range m\<close> visits every key of the map once, in an order the
  runtime chooses. The order is an input of the model; \<open>range_keys m ks\<close> says that
  \<open>ks\<close> is an order the runtime may choose for \<open>m\<close>.
\<close>

definition range_keys :: "('k, 'v) fmap \<Rightarrow> 'k list \<Rightarrow> bool" where
  "range_keys m ks = (distinct ks \<and> fset_of_list ks = fmdom m)"

subsection \<open>The registry operations\<close>

text \<open>\<^verbatim>\<open>NewBroadcaster\<close>, the map it makes (lines 25-29).\<close>

definition new_rooms :: registry where
  "new_rooms = fmempty"

text \<open>Lines 61-65, the body of the write-locked section that adds the client.\<close>

definition join :: "registry \<Rightarrow> string \<Rightarrow> conn \<Rightarrow> registry option" where
  "join rs roomName c =
     (let rs1 = (if fmlookup rs roomName = None then fmupd roomName fmempty rs else rs)
      in assign_member rs1 roomName c True)"

text \<open>The messages written with \<^verbatim>\<open>log.Printf\<close>, the calls on a connection and the reply
  to the HTTP request are the observable events of a run.\<close>

datatype event =
    HttpError string nat
  | Upgraded conn
  | LogUpgradeError string
  | LogConnected string nat
  | LogRoomDeleted string
  | LogDisconnected string
  | LogWriteError string
  | WriteMessage conn int payload
  | ConnClose conn

text \<open>Lines 74-80, the body of the write-locked section of the deferred function: the
  new registry and what it logs.\<close>

definition leave :: "registry \<Rightarrow> string \<Rightarrow> conn \<Rightarrow> registry \<times> event list" where
  "leave rs roomName c =
     (let rs1 = delete_member rs roomName c
      in if go_len (index_rooms rs1 roomName) = 0
         then (fmdrop roomName rs1, [LogRoomDeleted roomName])
         else (rs1, []))"

text \<open>\<^verbatim>\<open>snapshotMembers\<close> of the specification is the read \<^verbatim>\<open>b.rooms[roomName]\<close> of
  line 100.\<close>

definition snapshotMembers :: "registry \<Rightarrow> string \<Rightarrow> members" where
  "snapshotMembers rs roomName = index_rooms rs roomName"

text \<open>A run of joins and leaves, each one atomic under the write lock.\<close>

datatype reg_op = Join string conn | Leave string conn

fun apply_op :: "registry \<Rightarrow> reg_op \<Rightarrow> registry option" where
  "apply_op rs (Join roomName c) = join rs roomName c"
| "apply_op rs (Leave roomName c) = Some (fst (leave rs roomName c))"

fun run_ops :: "registry \<Rightarrow> reg_op list \<Rightarrow> registry option" where
  "run_ops rs [] = Some rs"
| "run_ops rs (x # xs) =
     (case apply_op rs x of None \<Rightarrow> None | Some rs' \<Rightarrow> run_ops rs' xs)"


section \<open>The session handler\<close>

subsection \<open>The reader/writer lock\<close>

text \<open>
  \<^verbatim>\<open>sync.RWMutex\<close>: the number of read locks held and whether the write lock is held.
  \<^verbatim>\<open>Lock\<close> waits until nobody holds the lock, \<^verbatim>\<open>RLock\<close> until no writer holds it.
  A run of one goroutine has nobody else to release the lock, so a call that has to wait
  waits for ever (\<open>None\<close>); in particular \<^verbatim>\<open>Lock\<close> never returns in a goroutine
  that itself holds a read lock. \<^verbatim>\<open>Unlock\<close> and \<^verbatim>\<open>RUnlock\<close> are only ever called by
  the holder, right after the section they close.
\<close>

record RWMutex =
  readers :: nat
  writer :: bool

definition unlocked :: RWMutex where
  "unlocked = \<lparr>readers = 0, writer = False\<rparr>"

definition Lock :: "RWMutex \<Rightarrow> RWMutex option" where
  "Lock l = (if readers l = 0 \<and> \<not> writer l then Some (l\<lparr>writer := True\<rparr>) else None)"

definition Unlock :: "RWMutex \<Rightarrow> RWMutex" where
  "Unlock l = l\<lparr>writer := False\<rparr>"

definition RLock :: "RWMutex \<Rightarrow> RWMutex option" where
  "RLock l = (if \<not> writer l then Some (l\<lparr>readers := Suc (readers l)\<rparr>) else None)"

definition RUnlock :: "RWMutex \<Rightarrow> RWMutex" where
  "RUnlock l = l\<lparr>readers := readers l - 1\<rparr>"

record Broadcaster =
  lock :: RWMutex
  rooms :: registry

definition NewBroadcaster :: Broadcaster where
  "NewBroadcaster = \<lparr>lock = unlocked, rooms = new_rooms\<rparr>"

subsection \<open>The environment of a session\<close>

text \<open>
  What a call \<^verbatim>\<open>client.WriteMessage(messageType, message)\<close> can do: return nil, return
  an error, panic (the websocket library panics on a write that overlaps another
  goroutine's write to the same connection, which two senders under the shared read lock
  can produce), or never return (the code sets no write deadline).
\<close>

datatype write_result = WNil | WErr string | WPanic | WNever

text \<open>
  What the successive calls \<^verbatim>\<open>conn.ReadMessage()\<close> of a session do: deliver a message
  (with it come the order the runtime picks for the \<^verbatim>\<open>range\<close> of that iteration and
  the results of the writes of that iteration), return an error, or panic. A script that
  is used up stands for a read that is still waiting.
\<close>

datatype read_step =
    Recv int payload "conn list" "conn \<Rightarrow> write_result"
  | RecvErr string
  | RecvPanic

text \<open>How the goroutine of a handler ends, or where it stays for ever.\<close>

datatype outcome = Returned | Panicked | BlockedOnLock | BlockedOnWrite | AwaitingMessage

text \<open>The order of a \<^verbatim>\<open>range\<close> over \<open>m\<close>: the runtime's pick \<open>pri\<close> when that is an
  enumeration of the keys, each once; the ascending one otherwise.\<close>

definition go_range :: "members \<Rightarrow> conn list \<Rightarrow> conn list" where
  "go_range m pri = (if range_keys m pri then pri else sorted_list_of_fset (fmdom m))"

definition prepend :: "event list \<Rightarrow> 's \<times> event list \<times> outcome \<Rightarrow> 's \<times> event list \<times> outcome" where
  "prepend evs r = (fst r, evs @ fst (snd r), snd (snd r))"

subsection \<open>The fan-out, lines 100-111\<close>

fun fan_out :: "conn \<Rightarrow> int \<Rightarrow> payload \<Rightarrow> (conn \<Rightarrow> write_result) \<Rightarrow> conn list
    \<Rightarrow> event list \<times> outcome" where
  "fan_out c mt msg wr [] = ([], Returned)"
| "fan_out c mt msg wr (client # ks) =
     (if client \<noteq> c then
        (case wr client of
           WNil \<Rightarrow>
             (let r = fan_out c mt msg wr ks in (WriteMessage client mt msg # fst r, snd r))
         | WErr e \<Rightarrow>
             (let r = fan_out c mt msg wr ks
              in (WriteMessage client mt msg # LogWriteError e # fst r, snd r))
         | WPanic \<Rightarrow> ([WriteMessage client mt msg], Panicked)
         | WNever \<Rightarrow> ([WriteMessage client mt msg], BlockedOnWrite))
      else fan_out c mt msg wr ks)"

text \<open>Lines 97-113: one received message, relayed under the read lock. The read lock is
  released only when the loop over the clients runs to its end.\<close>

definition broadcast :: "Broadcaster \<Rightarrow> string \<Rightarrow> conn \<Rightarrow> int \<Rightarrow> payload \<Rightarrow> conn list
    \<Rightarrow> (conn \<Rightarrow> write_result) \<Rightarrow> Broadcaster \<times> event list \<times> outcome" where
  "broadcast b roomName c mt msg pri wr =
     (case RLock (lock b) of
        None \<Rightarrow> (b, [], BlockedOnLock)
      | Some l \<Rightarrow>
          (let r = fan_out c mt msg wr (go_range (index_rooms (rooms b) roomName) pri)
           in if snd r = Returned
              then (b\<lparr>lock := RUnlock l\<rparr>, fst r, Returned)
              else (b\<lparr>lock := l\<rparr>, fst r, snd r)))"

subsection \<open>The relay loop, lines 86-114\<close>

fun relay_loop :: "Broadcaster \<Rightarrow> string \<Rightarrow> conn \<Rightarrow> read_step list
    \<Rightarrow> Broadcaster \<times> event list \<times> outcome" where
  "relay_loop b roomName c [] = (b, [], AwaitingMessage)"
| "relay_loop b roomName c (RecvErr e # rest) = (b, [], Returned)"
| "relay_loop b roomName c (RecvPanic # rest) = (b, [], Panicked)"
| "relay_loop b roomName c (Recv mt msg pri wr # rest) =
     (let r = broadcast b roomName c mt msg pri wr
      in if snd (snd r) = Returned
         then prepend (fst (snd r)) (relay_loop (fst r) roomName c rest)
         else r)"

subsection \<open>The deferred calls\<close>

text \<open>Lines 71-83, the deferred function: \<open>None\<close> when its \<^verbatim>\<open>Lock\<close> never returns.\<close>

definition cleanup :: "Broadcaster \<Rightarrow> string \<Rightarrow> conn \<Rightarrow> (Broadcaster \<times> event list) option" where
  "cleanup b roomName c =
     (case Lock (lock b) of
        None \<Rightarrow> None
      | Some l \<Rightarrow>
          (let r = leave (rooms b) roomName c
           in Some (\<lparr>lock = Unlock l, rooms = fst r\<rparr>, snd r @ [LogDisconnected roomName])))"

text \<open>
  Deferred calls run last-in first-out when the function returns or panics: first the
  function of line 71, then \<^verbatim>\<open>conn.Close()\<close> of line 56. \<open>how\<close> is how the body
  ended (\<open>Returned\<close> or \<open>Panicked\<close>).
\<close>

definition run_defers :: "Broadcaster \<Rightarrow> string \<Rightarrow> conn \<Rightarrow> outcome
    \<Rightarrow> Broadcaster \<times> event list \<times> outcome" where
  "run_defers b roomName c how =
     (case cleanup b roomName c of
        None \<Rightarrow> (b, [], BlockedOnLock)
      | Some r \<Rightarrow> (fst r, snd r @ [ConnClose c], how))"

subsection \<open>handleWebSocket, lines 41-115\<close>

text \<open>\<^verbatim>\<open>r.URL.Query().Get(key)\<close>: the first value of the key, the empty string when
  there is none.\<close>

definition query_get :: "(string \<rightharpoonup> string list) \<Rightarrow> string \<Rightarrow> string" where
  "query_get q k = (case q k of None \<Rightarrow> [] | Some [] \<Rightarrow> [] | Some (v # _) \<Rightarrow> v)"

text \<open>
  The handler, run on the Broadcaster \<open>b\<close> for a request with query \<open>q\<close>. \<open>up\<close>
  is what \<^verbatim>\<open>upgrader.Upgrade\<close> returns when called (an error or the connection),
  \<open>script\<close> what the reads of the session do. A panic of the assignment of line 65
  would unwind with the write lock held and only \<^verbatim>\<open>conn.Close()\<close> deferred; a body
  that returns or panics after line 71 runs both deferred calls; a goroutine that is
  stuck runs none.
\<close>

definition handleWebSocket :: "Broadcaster \<Rightarrow> (string \<rightharpoonup> string list) \<Rightarrow> string + conn
    \<Rightarrow> read_step list \<Rightarrow> Broadcaster \<times> event list \<times> outcome" where
  "handleWebSocket b q up script =
     (let roomName = query_get q ''room'' in
      if roomName = [] then (b, [HttpError ''Room name is required'' 400], Returned)
      else
        (case up of
           Inl err \<Rightarrow> (b, [LogUpgradeError err], Returned)
         | Inr c \<Rightarrow>
             (case Lock (lock b) of
                None \<Rightarrow> (b, [Upgraded c], BlockedOnLock)
              | Some l \<Rightarrow>
                  (case join (rooms b) roomName c of
                     None \<Rightarrow> (b\<lparr>lock := l\<rparr>, [Upgraded c, ConnClose c], Panicked)
                   | Some rs \<Rightarrow>
                       (let b1 = \<lparr>lock = Unlock l, rooms = rs\<rparr>;
                            ev1 = [Upgraded c,
                                   LogConnected roomName (go_len (index_rooms rs roomName))];
                            r = relay_loop b1 roomName c script
                        in if snd (snd r) = Returned \<or> snd (snd r) = Panicked
                           then prepend (ev1 @ fst (snd r))
                                  (run_defers (fst r) roomName c (snd (snd r)))
                           else prepend ev1 r)))))"

section \<open>The process entry point, lines 117-136\<close>

text \<open>\<^verbatim>\<open>os.Getenv\<close>: the value of the variable, the empty string when it is unset.\<close>

definition getenv :: "(string \<rightharpoonup> string) \<Rightarrow> string \<Rightarrow> string" where
  "getenv env k = (case env k of None \<Rightarrow> [] | Some v \<Rightarrow> v)"

text \<open>
  What \<^verbatim>\<open>main\<close> does: the handlers it registers (path and the Broadcaster the handler
  is bound to), the address it listens on, what it logs, and the exit status when the
  process ends. \<open>listen addr\<close> is what \<^verbatim>\<open>http.ListenAndServe(addr, nil)\<close> does:
  return an error, or serve without returning (\<open>None\<close>). \<^verbatim>\<open>log.Fatal\<close> prints and
  calls \<^verbatim>\<open>os.Exit(1)\<close>.
\<close>

datatype main_event = LogStarting string | LogFatal string

record process =
  handlers :: "(string \<times> Broadcaster) list"
  listen_addr :: string
  log_lines :: "main_event list"
  exit_status :: "nat option"

definition main_go :: "(string \<rightharpoonup> string) \<Rightarrow> (string \<Rightarrow> string option) \<Rightarrow> process" where
  "main_go env listen =
     (let broadcaster = NewBroadcaster;
          mux = [(''/ws'', broadcaster)];
          port0 = getenv env ''PORT'';
          port = (if port0 = [] then ''8080'' else port0);
          addr = '':'' @ port
      in case listen addr of
           Some err \<Rightarrow>
             \<lparr>handlers = mux, listen_addr = addr,
              log_lines = [LogStarting port, LogFatal err], exit_status = Some 1\<rparr>
         | None \<Rightarrow>
             \<lparr>handlers = mux, listen_addr = addr,
              log_lines = [LogStarting port], exit_status = None\<rparr>)"


section \<open>Notions used in the statements\<close>

text \<open>The sends of a trace: the target, the message kind and the payload of each
  \<^verbatim>\<open>WriteMessage\<close> call, in order.\<close>

fun sends :: "event list \<Rightarrow> (conn \<times> int \<times> payload) list" where
  "sends [] = []"
| "sends (WriteMessage k mt msg # evs) = (k, mt, msg) # sends evs"
| "sends (_ # evs) = sends evs"

text \<open>A write that comes back to its caller, with nil or with an error.\<close>

definition returns :: "write_result \<Rightarrow> bool" where
  "returns w = (case w of WNil \<Rightarrow> True | WErr e \<Rightarrow> True | WPanic \<Rightarrow> False | WNever \<Rightarrow> False)"

text \<open>A read that delivers a message all of whose writes come back.\<close>

definition relays_and_returns :: "read_step \<Rightarrow> bool" where
  "relays_and_returns s =
     (case s of Recv mt msg pri wr \<Rightarrow> (\<forall>k. returns (wr k)) | RecvErr e \<Rightarrow> False | RecvPanic \<Rightarrow> False)"

text \<open>How a read ends the loop: an error breaks it (line 93), a panic unwinds it.\<close>

definition exit_of :: "read_step \<Rightarrow> outcome option" where
  "exit_of s = (case s of Recv mt msg pri wr \<Rightarrow> None | RecvErr e \<Rightarrow> Some Returned | RecvPanic \<Rightarrow> Some Panicked)"

text \<open>The events of a fan-out.\<close>

definition relay_event :: "event \<Rightarrow> bool" where
  "relay_event ev =
     (case ev of WriteMessage k mt msg \<Rightarrow> True | LogWriteError e \<Rightarrow> True | _ \<Rightarrow> False)"

text \<open>Invariant 2 of the data model: no room is present with an empty member set.\<close>

definition no_empty_room :: "registry \<Rightarrow> bool" where
  "no_empty_room rs = (\<forall>r m. fmlookup rs r = Some m \<longrightarrow> fmdom m \<noteq> {||})"

section \<open>Properties of the registry\<close>

subsection \<open>Reading and updating the two-level map\<close>

lemma index_rooms_fmupd:
  "index_rooms (fmupd r m rs) r' = (if r = r' then m else index_rooms rs r')"
  by (simp add: index_rooms_def)

lemma index_rooms_absent: "fmlookup rs r = None \<Longrightarrow> index_rooms rs r = fmempty"
  by (simp add: index_rooms_def)

lemma go_len_0: "(go_len m = 0) = (fmdom m = {||})"
  by (simp add: go_len_def)

lemma go_len_pos: "(0 < go_len m) = (fmdom m \<noteq> {||})"
  using go_len_0 [of m] by auto

lemma fmdrop_absent: "fmlookup rs r = None \<Longrightarrow> fmdrop r rs = rs"
  by (rule fmap_ext) simp

lemma fmupd_same: "fmlookup rs r = Some m \<Longrightarrow> fmupd r m rs = rs"
  by (rule fmap_ext) auto

subsection \<open>Closed forms of join and leave\<close>

lemma join_eq:
  "join rs r c = Some (fmupd r (fmupd c True (index_rooms rs r)) rs)"
  by (cases "fmlookup rs r") (simp_all add: join_def assign_member_def index_rooms_def)

lemma leave_absent:
  "fmlookup rs r = None \<Longrightarrow> leave rs r c = (fmdrop r rs, [LogRoomDeleted r])"
  by (simp add: leave_def delete_member_def index_rooms_absent go_len_0)

lemma leave_present:
  "fmlookup rs r = Some m \<Longrightarrow>
     leave rs r c =
       (if fmdom (fmdrop c m) = {||}
        then (fmdrop r rs, [LogRoomDeleted r])
        else (fmupd r (fmdrop c m) rs, []))"
  by (simp add: leave_def delete_member_def index_rooms_fmupd go_len_0 fmdrop_fmupd_same)

subsection \<open>The invariant along a run\<close>

lemma no_empty_room_new: "no_empty_room new_rooms"
  by (simp add: no_empty_room_def new_rooms_def)

lemma no_empty_room_join:
  "no_empty_room rs \<Longrightarrow> join rs r c = Some rs' \<Longrightarrow> no_empty_room rs'"
  by (auto simp: join_eq no_empty_room_def split: if_splits)

lemma no_empty_room_leave:
  "no_empty_room rs \<Longrightarrow> no_empty_room (fst (leave rs r c))"
proof (cases "fmlookup rs r")
  case None
  assume "no_empty_room rs"
  with None show ?thesis
    by (simp add: leave_absent no_empty_room_def)
next
  case (Some m)
  assume "no_empty_room rs"
  with Some show ?thesis
    by (auto simp: leave_present no_empty_room_def split: if_splits)
qed

lemma no_empty_room_apply_op:
  "no_empty_room rs \<Longrightarrow> apply_op rs x = Some rs' \<Longrightarrow> no_empty_room rs'"
  by (cases x) (auto intro: no_empty_room_join no_empty_room_leave)

lemma apply_op_total: "\<exists>rs'. apply_op rs x = Some rs'"
  by (cases x) (simp_all add: join_eq)

lemma run_ops_total: "\<exists>rs'. run_ops rs xs = Some rs'"
proof (induction xs arbitrary: rs)
  case Nil
  show ?case by simp
next
  case (Cons x xs)
  obtain rs1 where "apply_op rs x = Some rs1"
    using apply_op_total by blast
  with Cons show ?case by simp
qed

lemma no_empty_room_run_ops:
  "no_empty_room rs \<Longrightarrow> run_ops rs xs = Some rs' \<Longrightarrow> no_empty_room rs'"
proof (induction xs arbitrary: rs)
  case Nil
  then show ?case by simp
next
  case (Cons x xs)
  then show ?case
    by (auto split: option.splits dest: no_empty_room_apply_op)
qed

lemma present_iff_nonempty:
  "no_empty_room rs \<Longrightarrow> (r |\<in>| fmdom rs) = (0 < go_len (index_rooms rs r))"
  by (cases "fmlookup rs r")
     (auto simp: no_empty_room_def index_rooms_def go_len_pos fmlookup_dom_iff)

lemma leave_last_member:
  "fmdom (index_rooms rs r) |\<subseteq>| {|c|} \<Longrightarrow> r |\<notin>| fmdom (fst (leave rs r c))"
  by (cases "fmlookup rs r") (auto simp: leave_absent leave_present index_rooms_def)

lemma leave_nonmember:
  assumes "no_empty_room rs" and "c |\<notin>| fmdom (index_rooms rs r)"
  shows "fst (leave rs r c) = rs"
proof (cases "fmlookup rs r")
  case None
  then show ?thesis by (simp add: leave_absent fmdrop_absent)
next
  case (Some m)
  with assms have "c |\<notin>| fmdom m" and "fmdom m \<noteq> {||}"
    by (auto simp: index_rooms_def no_empty_room_def)
  then have "fmdrop c m = m"
    by (simp add: fmdrop_idle)
  with Some \<open>fmdom m \<noteq> {||}\<close> show ?thesis
    by (simp add: leave_present fmupd_same)
qed

subsection \<open>The keys a range visits\<close>

lemma distinct_count_list: "distinct ks \<Longrightarrow> c \<in> set ks \<Longrightarrow> count_list ks c = 1"
  by (induction ks) auto

lemma range_keys_set: "range_keys m ks \<Longrightarrow> set ks = fset (fmdom m)"
proof -
  assume "range_keys m ks"
  then have "fset_of_list ks = fmdom m"
    by (simp add: range_keys_def)
  then have "fset (fset_of_list ks) = fset (fmdom m)"
    by simp
  then show ?thesis
    by (simp add: fset_of_list.rep_eq)
qed

lemma range_keys_count: "range_keys m ks \<Longrightarrow> c |\<in>| fmdom m \<Longrightarrow> count_list ks c = 1"
  using range_keys_set [of m ks] by (simp add: distinct_count_list range_keys_def)

subsection \<open>Join\<close>

text \<open>
  Claim C8. For every registry, room identifier and connection handle, join succeeds
  (the assignment of line 65 never hits a nil map): afterwards the room is present, its
  member set is the old one with the handle added, and every other room is as before.
  Joining the same handle into the same room again gives the same registry, and a range
  over the room's members meets the handle exactly once.
\<close>

theorem join_succeeds_idempotent:
  "\<exists>rs1. join rs roomName c = Some rs1
     \<and> roomName |\<in>| fmdom rs1
     \<and> snapshotMembers rs1 roomName = fmupd c True (snapshotMembers rs roomName)
     \<and> fmdrop roomName rs1 = fmdrop roomName rs
     \<and> join rs1 roomName c = Some rs1
     \<and> (range_keys (snapshotMembers rs1 roomName) ks \<longrightarrow> count_list ks c = 1)"
proof -
  let ?rs1 = "fmupd roomName (fmupd c True (index_rooms rs roomName)) rs"
  have "join rs roomName c = Some ?rs1"
    by (rule join_eq)
  moreover have "roomName |\<in>| fmdom ?rs1"
    by simp
  moreover have "snapshotMembers ?rs1 roomName = fmupd c True (snapshotMembers rs roomName)"
    by (simp add: snapshotMembers_def index_rooms_fmupd)
  moreover have "fmdrop roomName ?rs1 = fmdrop roomName rs"
    by (simp add: fmdrop_fmupd_same)
  moreover have "join ?rs1 roomName c = Some ?rs1"
    by (simp add: join_eq index_rooms_fmupd)
  moreover have "range_keys (snapshotMembers ?rs1 roomName) ks \<longrightarrow> count_list ks c = 1"
    by (simp add: snapshotMembers_def index_rooms_fmupd range_keys_count)
  ultimately show ?thesis
    by blast
qed

theorem join_succeeds_idempotent_witness:
  "join new_rooms ''lobby'' 7 = Some (fmupd ''lobby'' (fmupd 7 True fmempty) fmempty)
   \<and> join (fmupd ''lobby'' (fmupd 7 True fmempty) fmempty) ''lobby'' 7
       = Some (fmupd ''lobby'' (fmupd 7 True fmempty) fmempty)
   \<and> range_keys (snapshotMembers (fmupd ''lobby'' (fmupd 7 True fmempty) fmempty) ''lobby'') [7]
   \<and> count_list [7] (7::nat) = 1"
  using join_succeeds_idempotent [of new_rooms "''lobby''" 7 "[7]"]
  by (auto simp: join_eq new_rooms_def index_rooms_def snapshotMembers_def range_keys_def)

subsection \<open>Leave\<close>

text \<open>
  Claim C7. Leave is a total function of the registry (Go's \<^verbatim>\<open>delete\<close> and \<^verbatim>\<open>len\<close>
  accept a nil map and a missing key, so nothing in lines 74-80 can fail). In every
  registry that joins and leaves can produce from the empty one, a leave of a handle that
  is not a member of the room, which includes a room that is absent, gives back the same
  registry.
\<close>

theorem leave_nonmember_noop:
  "run_ops new_rooms ops = Some rs \<Longrightarrow>
   c |\<notin>| fmdom (snapshotMembers rs roomName) \<Longrightarrow>
   fst (leave rs roomName c) = rs"
  by (simp add: snapshotMembers_def leave_nonmember
        no_empty_room_run_ops [OF no_empty_room_new])

theorem leave_nonmember_noop_witness:
  "run_ops new_rooms [Join ''lobby'' 1, Join ''lobby'' 2, Leave ''lobby'' 1]
     = Some (fmupd ''lobby'' (fmupd 2 True fmempty) fmempty)
   \<and> 1 |\<notin>| fmdom (snapshotMembers (fmupd ''lobby'' (fmupd 2 True fmempty) fmempty) ''lobby'')
   \<and> 1 |\<notin>| fmdom (snapshotMembers (fmupd ''lobby'' (fmupd 2 True fmempty) fmempty) ''hall'')
   \<and> fst (leave (fmupd ''lobby'' (fmupd 2 True fmempty) fmempty) ''lobby'' 1)
       = fmupd ''lobby'' (fmupd 2 True fmempty) fmempty
   \<and> fst (leave (fmupd ''lobby'' (fmupd 2 True fmempty) fmempty) ''hall'' 1)
       = fmupd ''lobby'' (fmupd 2 True fmempty) fmempty"
proof -
  let ?rs = "fmupd ''lobby'' (fmupd (2::nat) True fmempty) fmempty"
  have run: "run_ops new_rooms [Join ''lobby'' 1, Join ''lobby'' 2, Leave ''lobby'' 1] = Some ?rs"
    by (simp add: join_eq leave_present new_rooms_def index_rooms_def fmdrop_fmupd
          fmupd_reorder_neq)
  have a: "1 |\<notin>| fmdom (snapshotMembers ?rs ''lobby'')"
    by (simp add: snapshotMembers_def index_rooms_def)
  have b: "1 |\<notin>| fmdom (snapshotMembers ?rs ''hall'')"
    by (simp add: snapshotMembers_def index_rooms_def)
  show ?thesis
    using run a b leave_nonmember_noop [OF run a] leave_nonmember_noop [OF run b]
    by simp
qed

subsection \<open>Rooms exist exactly while they have members\<close>

text \<open>
  Claim C2. Every sequence of joins and leaves from the empty registry runs to a registry
  in which a room identifier is present if and only if the room has at least one member;
  every prefix of a sequence is a sequence, so this holds at each point between two
  operations. And a leave that takes the last member out of a room removes the room entry
  in the same operation.
\<close>

theorem registry_present_iff_nonempty:
  "\<exists>rs. run_ops new_rooms ops = Some rs
     \<and> ((roomName |\<in>| fmdom rs) = (0 < go_len (snapshotMembers rs roomName)))
     \<and> (fmdom (snapshotMembers rs r) |\<subseteq>| {|c|} \<longrightarrow> r |\<notin>| fmdom (fst (leave rs r c)))"
proof -
  obtain rs where rs: "run_ops new_rooms ops = Some rs"
    using run_ops_total by blast
  then have "no_empty_room rs"
    using no_empty_room_run_ops [OF no_empty_room_new] by blast
  with rs show ?thesis
    by (simp add: present_iff_nonempty leave_last_member snapshotMembers_def)
qed

theorem registry_present_iff_nonempty_witness:
  "run_ops new_rooms [Join ''lobby'' 1, Join ''lobby'' 2, Leave ''lobby'' 1]
     = Some (fmupd ''lobby'' (fmupd 2 True fmempty) fmempty)
   \<and> ''lobby'' |\<in>| fmdom (fmupd ''lobby'' (fmupd (2::nat) True fmempty) fmempty)
   \<and> 0 < go_len (snapshotMembers (fmupd ''lobby'' (fmupd 2 True fmempty) fmempty) ''lobby'')
   \<and> fmdom (snapshotMembers (fmupd ''lobby'' (fmupd 2 True fmempty) fmempty) ''lobby'') |\<subseteq>| {|2|}
   \<and> ''lobby'' |\<notin>| fmdom (fst (leave (fmupd ''lobby'' (fmupd 2 True fmempty) fmempty) ''lobby'' 2))"
proof -
  let ?rs = "fmupd ''lobby'' (fmupd (2::nat) True fmempty) fmempty"
  have run: "run_ops new_rooms [Join ''lobby'' 1, Join ''lobby'' 2, Leave ''lobby'' 1] = Some ?rs"
    by (simp add: join_eq leave_present new_rooms_def index_rooms_def fmdrop_fmupd
          fmupd_reorder_neq)
  have sub: "fmdom (snapshotMembers ?rs ''lobby'') |\<subseteq>| {|2|}"
    by (simp add: snapshotMembers_def index_rooms_def)
  show ?thesis
    using registry_present_iff_nonempty
      [of "[Join ''lobby'' 1, Join ''lobby'' 2, Leave ''lobby'' 1]" "''lobby''" "''lobby''" 2]
      run sub
    by simp
qed

section \<open>Properties of a session\<close>

subsection \<open>The order of a range\<close>

lemma distinct_sorted_list_of_fset: "distinct (sorted_list_of_fset S)"
  by (simp add: sorted_list_of_fset.rep_eq)

lemma range_keys_go_range: "range_keys m (go_range m pri)"
  by (simp add: go_range_def range_keys_def distinct_sorted_list_of_fset)

lemma set_go_range: "set (go_range m pri) = fset (fmdom m)"
  by (rule range_keys_set) (rule range_keys_go_range)

lemma distinct_go_range: "distinct (go_range m pri)"
  using range_keys_go_range [of m pri] by (simp add: range_keys_def)

lemma go_range_empty: "go_range fmempty pri = []"
  using set_go_range [of fmempty pri] by simp

subsection \<open>The fan-out loop\<close>

lemma sends_append: "sends (xs @ ys) = sends xs @ sends ys"
  by (induction xs rule: sends.induct) simp_all

lemma fan_out_returns:
  "\<forall>k\<in>set ks. k \<noteq> c \<longrightarrow> returns (wr k) \<Longrightarrow>
   snd (fan_out c mt msg wr ks) = Returned \<and>
   sends (fst (fan_out c mt msg wr ks)) = map (\<lambda>k. (k, mt, msg)) (filter (\<lambda>k. k \<noteq> c) ks)"
  by (induction ks) (auto simp: returns_def Let_def split: write_result.splits)

lemma fan_out_append:
  "\<forall>k\<in>set ks1. k \<noteq> c \<longrightarrow> returns (wr k) \<Longrightarrow>
   fan_out c mt msg wr (ks1 @ ks2) =
     (fst (fan_out c mt msg wr ks1) @ fst (fan_out c mt msg wr ks2),
      snd (fan_out c mt msg wr ks2))"
  by (induction ks1) (auto simp: returns_def Let_def split: write_result.splits)

lemma fan_out_logs_error:
  "p \<in> set ks \<Longrightarrow> p \<noteq> c \<Longrightarrow> wr p = WErr e \<Longrightarrow>
   \<forall>k\<in>set ks. k \<noteq> c \<longrightarrow> returns (wr k) \<Longrightarrow>
   LogWriteError e \<in> set (fst (fan_out c mt msg wr ks))"
  by (induction ks) (auto simp: returns_def Let_def split: write_result.splits)

lemma fan_out_sends_sound:
  "set (sends (fst (fan_out c mt msg wr ks))) \<subseteq> (\<lambda>k. (k, mt, msg)) ` (set ks - {c})"
  by (induction ks) (auto simp: Let_def split: write_result.splits)

lemma RUnlock_RLock: "RLock l = Some l' \<Longrightarrow> RUnlock l' = l"
  by (auto simp: RLock_def RUnlock_def split: if_splits)

lemma broadcast_returns:
  assumes "\<not> writer (lock b)"
      and "\<forall>k. k |\<in>| fmdom (index_rooms (rooms b) roomName) \<longrightarrow> k \<noteq> c \<longrightarrow> returns (wr k)"
  shows "broadcast b roomName c mt msg pri wr =
           (b, fst (fan_out c mt msg wr (go_range (index_rooms (rooms b) roomName) pri)), Returned)"
    and "sends (fst (fan_out c mt msg wr (go_range (index_rooms (rooms b) roomName) pri))) =
           map (\<lambda>k. (k, mt, msg)) (filter (\<lambda>k. k \<noteq> c) (go_range (index_rooms (rooms b) roomName) pri))"
proof -
  let ?ks = "go_range (index_rooms (rooms b) roomName) pri"
  have ret: "\<forall>k\<in>set ?ks. k \<noteq> c \<longrightarrow> returns (wr k)"
    using assms(2) by (simp add: set_go_range)
  note fo = fan_out_returns [OF ret, of mt msg]
  from assms(1) obtain l where l: "RLock (lock b) = Some l"
    by (simp add: RLock_def)
  then have "RUnlock l = lock b"
    by (rule RUnlock_RLock)
  with l fo show "broadcast b roomName c mt msg pri wr = (b, fst (fan_out c mt msg wr ?ks), Returned)"
    by (simp add: broadcast_def)
  from fo show "sends (fst (fan_out c mt msg wr ?ks)) = map (\<lambda>k. (k, mt, msg)) (filter (\<lambda>k. k \<noteq> c) ?ks)"
    by simp
qed

lemma broadcast_sends_sound:
  "set (sends (fst (snd (broadcast b roomName c mt msg pri wr))))
     \<subseteq> (\<lambda>p. (p, mt, msg)) ` (fset (fmdom (snapshotMembers (rooms b) roomName)) - {c})"
proof (cases "RLock (lock b)")
  case None
  then show ?thesis by (simp add: broadcast_def)
next
  case (Some l)
  then have "fst (snd (broadcast b roomName c mt msg pri wr)) =
      fst (fan_out c mt msg wr (go_range (index_rooms (rooms b) roomName) pri))"
    by (simp add: broadcast_def Let_def)
  then show ?thesis
    using fan_out_sends_sound [of c mt msg wr "go_range (index_rooms (rooms b) roomName) pri"]
    by (simp add: set_go_range snapshotMembers_def)
qed

lemma rooms_broadcast: "rooms (fst (broadcast b roomName c mt msg pri wr)) = rooms b"
  by (simp add: broadcast_def Let_def split: option.splits)

lemma rooms_prepend: "rooms (fst (prepend evs r)) = rooms (fst r)"
  by (simp add: prepend_def)

lemma rooms_relay_loop: "rooms (fst (relay_loop b roomName c script)) = rooms b"
  by (induction b roomName c script rule: relay_loop.induct)
     (simp_all add: Let_def rooms_prepend rooms_broadcast)

lemma relay_loop_Recv_returns:
  assumes "\<not> writer (lock b)"
      and "\<forall>k. k |\<in>| fmdom (index_rooms (rooms b) roomName) \<longrightarrow> k \<noteq> c \<longrightarrow> returns (wr k)"
  shows "relay_loop b roomName c (Recv mt msg pri wr # rest) =
           prepend (fst (fan_out c mt msg wr (go_range (index_rooms (rooms b) roomName) pri)))
             (relay_loop b roomName c rest)"
  by (simp add: broadcast_returns(1) [OF assms])

lemma targets_image:
  "distinct ks \<Longrightarrow>
   distinct (map fst (map (\<lambda>k. (k, mt, msg)) (filter (\<lambda>k. k \<noteq> c) ks)))"
  by (simp add: comp_def distinct_map_filter)

lemma broadcast_absent_room:
  "fmlookup (rooms b) roomName = None \<Longrightarrow>
   fst (snd (broadcast b roomName c mt msg pri wr)) = []"
  by (simp add: broadcast_def index_rooms_absent go_range_empty split: option.splits)

lemma fan_out_never:
  assumes "\<forall>p\<in>set ks1. returns (wr p)" and "k \<noteq> c" and "wr k = WNever"
  shows "snd (fan_out c mt msg wr (ks1 @ k # ks2)) = BlockedOnWrite"
    and "map fst (sends (fst (fan_out c mt msg wr (ks1 @ k # ks2)))) = filter (\<lambda>p. p \<noteq> c) ks1 @ [k]"
proof -
  have ret: "\<forall>p\<in>set ks1. p \<noteq> c \<longrightarrow> returns (wr p)"
    using assms(1) by simp
  have split: "fan_out c mt msg wr (ks1 @ k # ks2) =
      (fst (fan_out c mt msg wr ks1) @ [WriteMessage k mt msg], BlockedOnWrite)"
    using assms(2,3) by (simp add: fan_out_append [OF ret])
  show "snd (fan_out c mt msg wr (ks1 @ k # ks2)) = BlockedOnWrite"
    by (simp add: split)
  show "map fst (sends (fst (fan_out c mt msg wr (ks1 @ k # ks2)))) = filter (\<lambda>p. p \<noteq> c) ks1 @ [k]"
    using fan_out_returns [OF ret, of mt msg] by (simp add: split sends_append comp_def)
qed

lemma relay_event_fan_out: "\<forall>ev\<in>set (fst (fan_out c mt msg wr ks)). relay_event ev"
  by (induction ks) (auto simp: relay_event_def Let_def split: write_result.splits)

subsection \<open>The lock around the registry sections\<close>

lemma Unlock_Lock: "Lock l = Some l' \<Longrightarrow> Unlock l' = l"
  by (auto simp: Lock_def Unlock_def split: if_splits)

lemma Lock_free: "readers l = 0 \<Longrightarrow> \<not> writer l \<Longrightarrow> Lock l = Some (l\<lparr>writer := True\<rparr>)"
  by (simp add: Lock_def)

lemma Lock_read_held: "0 < readers l \<Longrightarrow> Lock l = None"
  by (simp add: Lock_def)

subsection \<open>Leaving, seen from later snapshots\<close>

lemma leave_removes_member: "c |\<notin>| fmdom (snapshotMembers (fst (leave rs r c)) r)"
  by (cases "fmlookup rs r")
     (auto simp: leave_absent leave_present snapshotMembers_def index_rooms_def)

lemma departed_stays_out:
  "c |\<notin>| fmdom (snapshotMembers rs r) \<Longrightarrow> Join r c \<notin> set ops \<Longrightarrow>
   run_ops rs ops = Some rs' \<Longrightarrow> c |\<notin>| fmdom (snapshotMembers rs' r)"
proof (induction ops arbitrary: rs)
  case Nil
  then show ?case by simp
next
  case (Cons x ops)
  obtain rs1 where rs1: "apply_op rs x = Some rs1"
    using apply_op_total by blast
  have "c |\<notin>| fmdom (snapshotMembers rs1 r)"
  proof (cases x)
    case (Join r' c')
    with Cons.prems(2) have "r' \<noteq> r \<or> c' \<noteq> c"
      by auto
    with Join rs1 Cons.prems(1) show ?thesis
      by (auto simp: join_eq snapshotMembers_def index_rooms_fmupd split: if_splits)
  next
    case (Leave r' c')
    show ?thesis
    proof (cases "fmlookup rs r'")
      case None
      with Leave rs1 Cons.prems(1) show ?thesis
        by (auto simp: leave_absent snapshotMembers_def index_rooms_def
                 split: option.splits if_splits)
    next
      case (Some m)
      with Leave rs1 Cons.prems(1) show ?thesis
        by (auto simp: leave_present snapshotMembers_def index_rooms_def
                 split: option.splits if_splits)
    qed
  qed
  with Cons rs1 show ?case
    by simp
qed

subsection \<open>A session whose loop ends outside the fan-out\<close>

text \<open>
  When the lock is free at the start, every relayed message has writes that come back,
  and the loop ends with a failed read (the break of line 93) or with a panic of the read
  itself, the deferred calls run to their end: the leave, its log line, then the close of
  the connection, each once and in this order; the lock is free again and the handle is
  out of the room.
\<close>

lemma relay_loop_until_exit:
  assumes "\<not> writer (lock b)" and "\<forall>s\<in>set msgs. relays_and_returns s"
      and "exit_of stop = Some how"
  shows "\<exists>evs. relay_loop b roomName c (msgs @ stop # rest) = (b, evs, how)
           \<and> (\<forall>ev\<in>set evs. relay_event ev)"
  using assms(2)
proof (induction msgs)
  case Nil
  from assms(3) show ?case
    by (cases stop) (simp_all add: exit_of_def)
next
  case (Cons s msgs)
  then obtain mt msg pri wr where s: "s = Recv mt msg pri wr" and ret: "\<forall>k. returns (wr k)"
    by (auto simp: relays_and_returns_def split: read_step.splits)
  from Cons obtain evs where evs:
    "relay_loop b roomName c (msgs @ stop # rest) = (b, evs, how)"
    "\<forall>ev\<in>set evs. relay_event ev"
    by auto
  let ?f = "fst (fan_out c mt msg wr (go_range (index_rooms (rooms b) roomName) pri))"
  have step: "relay_loop b roomName c (Recv mt msg pri wr # msgs @ stop # rest) =
      prepend ?f (relay_loop b roomName c (msgs @ stop # rest))"
    by (rule relay_loop_Recv_returns [OF assms(1)]) (simp add: ret)
  have "relay_loop b roomName c ((s # msgs) @ stop # rest) = (b, ?f @ evs, how)"
    unfolding s append_Cons step evs(1) by (simp add: prepend_def)
  moreover have "\<forall>ev\<in>set (?f @ evs). relay_event ev"
    using evs(2) relay_event_fan_out by auto
  ultimately show ?case by blast
qed

lemma exit_of_cases: "exit_of stop = Some how \<Longrightarrow> how = Returned \<or> how = Panicked"
  by (cases stop) (auto simp: exit_of_def)

lemma handler_cleans_up_on_exit:
  assumes "readers (lock b) = 0" and "\<not> writer (lock b)"
      and "query_get q ''room'' = roomName" and "roomName \<noteq> []"
      and "\<forall>s\<in>set msgs. relays_and_returns s"
      and "exit_of stop = Some how"
  shows "\<exists>rs1 evs. join (rooms b) roomName c = Some rs1
           \<and> handleWebSocket b q (Inr c) (msgs @ stop # rest) =
               (\<lparr>lock = lock b, rooms = fst (leave rs1 roomName c)\<rparr>,
                Upgraded c # LogConnected roomName (go_len (index_rooms rs1 roomName)) # evs
                  @ snd (leave rs1 roomName c) @ [LogDisconnected roomName, ConnClose c],
                how)
           \<and> (\<forall>ev\<in>set evs. relay_event ev)
           \<and> c |\<notin>| fmdom (snapshotMembers (fst (leave rs1 roomName c)) roomName)"
proof -
  obtain rs1 where rs1: "join (rooms b) roomName c = Some rs1"
    by (simp add: join_eq)
  let ?b1 = "\<lparr>lock = lock b, rooms = rs1\<rparr>"
  have lk: "Lock (lock b) = Some ((lock b)\<lparr>writer := True\<rparr>)"
    using assms(1,2) by (rule Lock_free)
  have ul: "Unlock ((lock b)\<lparr>writer := True\<rparr>) = lock b"
    using lk by (rule Unlock_Lock)
  have "\<not> writer (lock ?b1)"
    using assms(2) by simp
  from relay_loop_until_exit [OF this assms(5,6), of roomName c rest]
  obtain evs where evs:
    "relay_loop ?b1 roomName c (msgs @ stop # rest) = (?b1, evs, how)"
    "\<forall>ev\<in>set evs. relay_event ev"
    by blast
  have how: "how = Returned \<or> how = Panicked"
    using assms(6) by (rule exit_of_cases)
  have "handleWebSocket b q (Inr c) (msgs @ stop # rest) =
      (\<lparr>lock = lock b, rooms = fst (leave rs1 roomName c)\<rparr>,
       Upgraded c # LogConnected roomName (go_len (index_rooms rs1 roomName)) # evs
         @ snd (leave rs1 roomName c) @ [LogDisconnected roomName, ConnClose c],
       how)"
    using assms(3,4) how
    by (simp add: handleWebSocket_def lk ul rs1 evs(1) run_defers_def cleanup_def prepend_def
          Let_def)
  with rs1 evs(2) leave_removes_member show ?thesis
    by blast
qed

section \<open>The claims about a session\<close>

subsection \<open>Who receives a broadcast\<close>

text \<open>
  Claim C1, as the code has it. For a message of kind \<open>mt\<close> and payload \<open>msg\<close>
  received from the sender \<open>s\<close> in the room \<open>roomName\<close>, whatever the writes do,
  every send that lines 97-113 attempt goes to a member of the room other than \<open>s\<close>
  and carries the same kind and the same payload. With the read lock available and every
  write of the fan-out coming back (with nil or an error), the loop runs to its end and
  the sends attempted are exactly one to each member other than \<open>s\<close>. This holds for
  every order the range may take.
\<close>

theorem broadcast_to_exactly_the_peers:
  "set (sends (fst (snd (broadcast b roomName s mt msg pri wr))))
     \<subseteq> (\<lambda>p. (p, mt, msg)) ` (fset (fmdom (snapshotMembers (rooms b) roomName)) - {s})
   \<and> (\<not> writer (lock b)
        \<and> (\<forall>k. k |\<in>| fmdom (snapshotMembers (rooms b) roomName) \<longrightarrow> returns (wr k)) \<longrightarrow>
       (\<exists>evs. broadcast b roomName s mt msg pri wr = (b, evs, Returned)
           \<and> set (sends evs) =
               (\<lambda>p. (p, mt, msg)) ` (fset (fmdom (snapshotMembers (rooms b) roomName)) - {s})
           \<and> distinct (map fst (sends evs))))"
proof (intro conjI impI)
  show "set (sends (fst (snd (broadcast b roomName s mt msg pri wr))))
     \<subseteq> (\<lambda>p. (p, mt, msg)) ` (fset (fmdom (snapshotMembers (rooms b) roomName)) - {s})"
    by (rule broadcast_sends_sound)
next
  assume free: "\<not> writer (lock b)
      \<and> (\<forall>k. k |\<in>| fmdom (snapshotMembers (rooms b) roomName) \<longrightarrow> returns (wr k))"
  let ?ks = "go_range (index_rooms (rooms b) roomName) pri"
  let ?evs = "fst (fan_out s mt msg wr ?ks)"
  have ret: "\<forall>k. k |\<in>| fmdom (index_rooms (rooms b) roomName) \<longrightarrow> k \<noteq> s \<longrightarrow> returns (wr k)"
    using free by (simp add: snapshotMembers_def)
  have lk: "\<not> writer (lock b)"
    using free by simp
  note br = broadcast_returns [OF lk ret, of mt msg pri]
  have snd: "sends ?evs = map (\<lambda>k. (k, mt, msg)) (filter (\<lambda>k. k \<noteq> s) ?ks)"
    by (rule br(2))
  have "set (sends ?evs) = (\<lambda>p. (p, mt, msg)) ` (fset (fmdom (snapshotMembers (rooms b) roomName)) - {s})"
    unfolding snd by (auto simp: set_go_range snapshotMembers_def)
  moreover have "distinct (map fst (sends ?evs))"
    unfolding snd by (rule targets_image) (rule distinct_go_range)
  ultimately
  show "\<exists>evs. broadcast b roomName s mt msg pri wr = (b, evs, Returned)
           \<and> set (sends evs) =
               (\<lambda>p. (p, mt, msg)) ` (fset (fmdom (snapshotMembers (rooms b) roomName)) - {s})
           \<and> distinct (map fst (sends evs))"
    using br(1) by blast
qed

theorem broadcast_to_exactly_the_peers_witness:
  "set (sends (fst (snd (broadcast
      \<lparr>lock = unlocked,
       rooms = fmupd ''lobby'' (fmupd 7 True (fmupd 8 True (fmupd 9 True fmempty))) fmempty\<rparr>
      ''lobby'' 7 1 [104, 105] [9, 7, 8] (\<lambda>_. WNil)))))
     = {(8, 1, [104, 105]), (9, 1, [104, 105])}
   \<and> snd (snd (broadcast
      \<lparr>lock = unlocked,
       rooms = fmupd ''lobby'' (fmupd 7 True (fmupd 8 True (fmupd 9 True fmempty))) fmempty\<rparr>
      ''lobby'' 7 1 [104, 105] [9, 7, 8] (\<lambda>_. WNil))) = Returned"
proof -
  let ?b = "\<lparr>lock = unlocked,
       rooms = fmupd ''lobby'' (fmupd (7::nat) True (fmupd 8 True (fmupd 9 True fmempty))) fmempty\<rparr>"
  have h: "\<not> writer (lock ?b)
      \<and> (\<forall>k. k |\<in>| fmdom (snapshotMembers (rooms ?b) ''lobby'') \<longrightarrow> returns ((\<lambda>_. WNil) k))"
    by (simp add: unlocked_def returns_def)
  from broadcast_to_exactly_the_peers
    [where b = ?b and roomName = "''lobby''" and s = 7 and mt = 1 and msg = "[104, 105]"
       and pri = "[9, 7, 8]" and wr = "\<lambda>_. WNil"] h
  obtain evs where evs: "broadcast ?b ''lobby'' 7 1 [104, 105] [9, 7, 8] (\<lambda>_. WNil) = (?b, evs, Returned)"
    and tg: "set (sends evs) =
      (\<lambda>p. (p, 1, [104, 105])) ` (fset (fmdom (snapshotMembers (rooms ?b) ''lobby'')) - {7})"
    by blast
  have "fset (fmdom (snapshotMembers (rooms ?b) ''lobby'')) - {7} = {8, 9}"
    by (auto simp: snapshotMembers_def index_rooms_def)
  with tg have "set (sends evs) = {(8, 1, [104, 105]), (9, 1, [104, 105])}"
    by simp
  with evs show ?thesis
    by simp
qed

text \<open>
  Without the condition on the writes the sends need not reach every peer: the writes are
  made in turn by the calls of line 104, and in a room of the sender 7 and the peers 8 and
  9 where the write to 8 never returns, the binary message is sent to 8 alone and 9 is
  never attempted.
\<close>

theorem hanging_write_cuts_broadcast_counterexample:
  "broadcast
     \<lparr>lock = unlocked,
      rooms = fmupd ''lobby'' (fmupd 7 True (fmupd 8 True (fmupd 9 True fmempty))) fmempty\<rparr>
     ''lobby'' 7 2 [0, 255] [8, 7, 9] ((\<lambda>_. WNil)(8 := WNever))
   = (\<lparr>lock = \<lparr>readers = 1, writer = False\<rparr>,
       rooms = fmupd ''lobby'' (fmupd 7 True (fmupd 8 True (fmupd 9 True fmempty))) fmempty\<rparr>,
      [WriteMessage 8 2 [0, 255]],
      BlockedOnWrite)
   \<and> fset (fmdom (snapshotMembers
        (fmupd ''lobby'' (fmupd 7 True (fmupd 8 True (fmupd 9 True fmempty))) fmempty) ''lobby''))
       = {7, 8, 9}
   \<and> sends [WriteMessage 8 2 [0, 255]] = [(8, 2, [0, 255])]
   \<and> (9, 2, [0, 255]) \<notin> set (sends [WriteMessage 8 2 [0, 255]])"
proof -
  let ?m = "fmupd (7::nat) True (fmupd 8 True (fmupd 9 True fmempty))"
  have gr: "go_range ?m [8, 7, 9] = [8, 7, 9]"
    by (auto simp: go_range_def range_keys_def)
  have dom: "fset (fmdom (snapshotMembers (fmupd ''lobby'' ?m fmempty) ''lobby'')) = {7, 8, 9}"
    by (auto simp: snapshotMembers_def index_rooms_def)
  have run: "broadcast \<lparr>lock = unlocked, rooms = fmupd ''lobby'' ?m fmempty\<rparr>
       ''lobby'' 7 2 [0, 255] [8, 7, 9] ((\<lambda>_. WNil)(8 := WNever))
     = (\<lparr>lock = \<lparr>readers = 1, writer = False\<rparr>, rooms = fmupd ''lobby'' ?m fmempty\<rparr>,
        [WriteMessage 8 2 [0, 255]], BlockedOnWrite)"
    by (simp add: unlocked_def broadcast_def RLock_def index_rooms_def gr)
  from run dom show ?thesis
    by simp
qed

subsection \<open>A failed send\<close>

text \<open>
  Claim C5. In a fan-out whose writes all come back and where the write to the peer
  \<open>p\<close> comes back with an error \<open>e\<close>: the error is logged, the sends attempted are
  still one to every member other than the sender, the Broadcaster is as before (so
  \<open>p\<close> is still a member of the room), and the sender's loop goes on with its next
  read.
\<close>

theorem send_failure_is_isolated:
  assumes "\<not> writer (lock b)"
      and "p |\<in>| fmdom (snapshotMembers (rooms b) roomName)" and "p \<noteq> c" and "wr p = WErr e"
      and "\<forall>k. k |\<in>| fmdom (snapshotMembers (rooms b) roomName) \<longrightarrow> returns (wr k)"
  shows "\<exists>evs. broadcast b roomName c mt msg pri wr = (b, evs, Returned)
           \<and> LogWriteError e \<in> set evs
           \<and> set (sends evs) =
               (\<lambda>k. (k, mt, msg)) ` (fset (fmdom (snapshotMembers (rooms b) roomName)) - {c})
           \<and> relay_loop b roomName c (Recv mt msg pri wr # rest) =
               prepend evs (relay_loop b roomName c rest)
           \<and> p |\<in>| fmdom (snapshotMembers (rooms (fst (broadcast b roomName c mt msg pri wr))) roomName)"
proof -
  let ?ks = "go_range (index_rooms (rooms b) roomName) pri"
  let ?evs = "fst (fan_out c mt msg wr ?ks)"
  have ret: "\<forall>k. k |\<in>| fmdom (index_rooms (rooms b) roomName) \<longrightarrow> k \<noteq> c \<longrightarrow> returns (wr k)"
    using assms(5) by (simp add: snapshotMembers_def)
  note br = broadcast_returns [OF assms(1) ret, of mt msg pri]
  have "p \<in> set ?ks"
    using assms(2) by (simp add: set_go_range snapshotMembers_def)
  moreover have "\<forall>k\<in>set ?ks. k \<noteq> c \<longrightarrow> returns (wr k)"
    using ret by (simp add: set_go_range)
  ultimately have "LogWriteError e \<in> set ?evs"
    using assms(3,4) by (simp add: fan_out_logs_error)
  moreover have "set (sends ?evs) =
      (\<lambda>k. (k, mt, msg)) ` (fset (fmdom (snapshotMembers (rooms b) roomName)) - {c})"
    unfolding br(2) by (auto simp: set_go_range snapshotMembers_def)
  moreover have "relay_loop b roomName c (Recv mt msg pri wr # rest) =
      prepend ?evs (relay_loop b roomName c rest)"
    by (rule relay_loop_Recv_returns [OF assms(1) ret])
  moreover have "p |\<in>| fmdom (snapshotMembers (rooms (fst (broadcast b roomName c mt msg pri wr))) roomName)"
    using assms(2) by (simp add: rooms_broadcast)
  ultimately show ?thesis
    using br(1) by blast
qed

theorem send_failure_is_isolated_witness:
  "LogWriteError ''broken pipe'' \<in> set (fst (snd (broadcast
      \<lparr>lock = unlocked,
       rooms = fmupd ''lobby'' (fmupd 7 True (fmupd 8 True (fmupd 9 True fmempty))) fmempty\<rparr>
      ''lobby'' 7 1 [104, 105] [8, 9, 7] ((\<lambda>_. WNil)(8 := WErr ''broken pipe'')))))
   \<and> set (sends (fst (snd (broadcast
      \<lparr>lock = unlocked,
       rooms = fmupd ''lobby'' (fmupd 7 True (fmupd 8 True (fmupd 9 True fmempty))) fmempty\<rparr>
      ''lobby'' 7 1 [104, 105] [8, 9, 7] ((\<lambda>_. WNil)(8 := WErr ''broken pipe''))))))
     = {(8, 1, [104, 105]), (9, 1, [104, 105])}
   \<and> snd (snd (relay_loop
      \<lparr>lock = unlocked,
       rooms = fmupd ''lobby'' (fmupd 7 True (fmupd 8 True (fmupd 9 True fmempty))) fmempty\<rparr>
      ''lobby'' 7
      [Recv 1 [104, 105] [8, 9, 7] ((\<lambda>_. WNil)(8 := WErr ''broken pipe'')), RecvErr ''eof'']))
     = Returned"
proof -
  let ?b = "\<lparr>lock = unlocked,
       rooms = fmupd ''lobby'' (fmupd (7::nat) True (fmupd 8 True (fmupd 9 True fmempty))) fmempty\<rparr>"
  let ?wr = "(\<lambda>_. WNil)(8 := WErr ''broken pipe'')"
  have h1: "\<not> writer (lock ?b)"
    by (simp add: unlocked_def)
  have h2: "8 |\<in>| fmdom (snapshotMembers (rooms ?b) ''lobby'')"
    by (simp add: snapshotMembers_def index_rooms_def)
  have h3: "(8::nat) \<noteq> 7"
    by simp
  have h4: "?wr 8 = WErr ''broken pipe''"
    by simp
  have h5: "\<forall>k. k |\<in>| fmdom (snapshotMembers (rooms ?b) ''lobby'') \<longrightarrow> returns (?wr k)"
    by (simp add: returns_def)
  from send_failure_is_isolated [OF h1 h2 h3 h4 h5, where mt = 1 and msg = "[104, 105]"
      and pri = "[8, 9, 7]" and rest = "[RecvErr ''eof'']"]
  obtain evs where evs: "broadcast ?b ''lobby'' 7 1 [104, 105] [8, 9, 7] ?wr = (?b, evs, Returned)"
    and lg: "LogWriteError ''broken pipe'' \<in> set evs"
    and tg: "set (sends evs) =
      (\<lambda>p. (p, 1, [104, 105])) ` (fset (fmdom (snapshotMembers (rooms ?b) ''lobby'')) - {7})"
    and lp: "relay_loop ?b ''lobby'' 7 [Recv 1 [104, 105] [8, 9, 7] ?wr, RecvErr ''eof''] =
      prepend evs (relay_loop ?b ''lobby'' 7 [RecvErr ''eof''])"
    by blast
  have "fset (fmdom (snapshotMembers (rooms ?b) ''lobby'')) - {7} = {8, 9}"
    by (auto simp: snapshotMembers_def index_rooms_def)
  with tg have "set (sends evs) = {(8, 1, [104, 105]), (9, 1, [104, 105])}"
    by simp
  moreover have "snd (snd (relay_loop ?b ''lobby'' 7
      [Recv 1 [104, 105] [8, 9, 7] ?wr, RecvErr ''eof''])) = Returned"
    unfolding lp by (simp add: prepend_def)
  ultimately show ?thesis
    using evs lg by simp
qed

subsection \<open>The registry is only read\<close>

text \<open>
  Claim C10. Relaying never changes the room-membership mapping: it is the same after one
  relayed message, and after any run of the loop, whatever the writes do. When the room
  entry is absent the fan-out sends nothing.
\<close>

theorem broadcast_leaves_registry:
  "rooms (fst (broadcast b roomName c mt msg pri wr)) = rooms b
   \<and> rooms (fst (relay_loop b roomName c script)) = rooms b
   \<and> sends (fst (snd (broadcast (b\<lparr>rooms := fmdrop roomName (rooms b)\<rparr>) roomName c mt msg pri wr))) = []"
proof -
  have "fmlookup (rooms (b\<lparr>rooms := fmdrop roomName (rooms b)\<rparr>)) roomName = None"
    by simp
  then have "fst (snd (broadcast (b\<lparr>rooms := fmdrop roomName (rooms b)\<rparr>) roomName c mt msg pri wr)) = []"
    by (rule broadcast_absent_room)
  then show ?thesis
    by (simp add: rooms_broadcast rooms_relay_loop)
qed

theorem broadcast_leaves_registry_witness:
  "rooms (fst (relay_loop
      \<lparr>lock = unlocked, rooms = fmupd ''lobby'' (fmupd 7 True (fmupd 8 True fmempty)) fmempty\<rparr>
      ''lobby'' 7
      [Recv 1 [104, 105] [8, 7] (\<lambda>_. WErr ''reset''), Recv 2 [0] [7, 8] (\<lambda>_. WPanic)]))
     = fmupd ''lobby'' (fmupd 7 True (fmupd 8 True fmempty)) fmempty
   \<and> sends (fst (snd (broadcast \<lparr>lock = unlocked, rooms = fmempty\<rparr> ''lobby'' 7 1 [104, 105] [8]
        (\<lambda>_. WNil)))) = []"
  using broadcast_leaves_registry
    [of "\<lparr>lock = unlocked, rooms = fmupd ''lobby'' (fmupd 7 True (fmupd 8 True fmempty)) fmempty\<rparr>"
        "''lobby''" 7 1 "[104, 105]" "[8, 7]" "\<lambda>_. WErr ''reset''"
        "[Recv 1 [104, 105] [8, 7] (\<lambda>_. WErr ''reset''), Recv 2 [0] [7, 8] (\<lambda>_. WPanic)]"]
    broadcast_leaves_registry
    [of "\<lparr>lock = unlocked, rooms = fmempty\<rparr>" "''lobby''" 7 1 "[104, 105]" "[8]" "\<lambda>_. WNil" "[]"]
  by simp

subsection \<open>A request without a room\<close>

text \<open>
  Claim C3. When the room parameter of the request is empty or missing, the handler
  replies with the client error 400 and returns: whatever the upgrade and the connection
  would have done, nothing of them happens (no upgrade, no join, no read), and the
  Broadcaster, registry and lock, is exactly as before.
\<close>

theorem empty_room_is_rejected:
  "query_get q ''room'' = [] \<Longrightarrow>
   handleWebSocket b q up script = (b, [HttpError ''Room name is required'' 400], Returned)"
  by (simp add: handleWebSocket_def)

theorem empty_room_is_rejected_witness:
  "query_get Map.empty ''room'' = []
   \<and> query_get [''room'' \<mapsto> [[]]] ''room'' = []
   \<and> handleWebSocket NewBroadcaster Map.empty (Inr 5) [RecvErr ''closed'']
       = (NewBroadcaster, [HttpError ''Room name is required'' 400], Returned)
   \<and> handleWebSocket NewBroadcaster [''room'' \<mapsto> [[]]] (Inr 5) [RecvErr ''closed'']
       = (NewBroadcaster, [HttpError ''Room name is required'' 400], Returned)"
proof -
  have a: "query_get Map.empty ''room'' = []"
    by (simp add: query_get_def)
  have b: "query_get [''room'' \<mapsto> [[]]] ''room'' = []"
    by (simp add: query_get_def)
  show ?thesis
    using a b empty_room_is_rejected [OF a] empty_room_is_rejected [OF b] by simp
qed

subsection \<open>One peer that does not answer\<close>

text \<open>
  Claim C6, as the code has it. The sends of a fan-out are made one after the other in
  the sender's own goroutine, with no deadline: let the range visit \<open>ks1\<close>, then the
  peer \<open>k\<close>, then \<open>ks2\<close>, and let the writes to \<open>ks1\<close> come back. If the write to
  \<open>k\<close> never returns, the message has been sent to the peers of \<open>ks1\<close> and to
  \<open>k\<close> only, the peers of \<open>ks2\<close> get nothing, the read lock stays held and the
  sender's loop never reaches its next read. If the write to \<open>k\<close> and those to
  \<open>ks2\<close> come back, with or without an error, every peer is sent the message and the
  loop goes on.
\<close>

theorem sends_are_sequential:
  assumes "\<not> writer (lock b)"
      and "go_range (snapshotMembers (rooms b) roomName) pri = ks1 @ k # ks2"
      and "k \<noteq> c"
      and "\<forall>p\<in>set ks1. returns (wr p)"
  shows "(wr k = WNever \<longrightarrow>
            (\<exists>evs. relay_loop b roomName c (Recv mt msg pri wr # rest)
                     = (b\<lparr>lock := (lock b)\<lparr>readers := Suc (readers (lock b))\<rparr>\<rparr>, evs, BlockedOnWrite)
                 \<and> map fst (sends evs) = filter (\<lambda>p. p \<noteq> c) ks1 @ [k]))
       \<and> (returns (wr k) \<and> (\<forall>p\<in>set ks2. returns (wr p)) \<longrightarrow>
            (\<exists>evs. relay_loop b roomName c (Recv mt msg pri wr # rest)
                     = prepend evs (relay_loop b roomName c rest)
                 \<and> map fst (sends evs) = filter (\<lambda>p. p \<noteq> c) (ks1 @ k # ks2)))"
proof (intro conjI impI)
  let ?ks = "go_range (index_rooms (rooms b) roomName) pri"
  have ks: "?ks = ks1 @ k # ks2"
    using assms(2) by (simp add: snapshotMembers_def)
  have rl: "RLock (lock b) = Some ((lock b)\<lparr>readers := Suc (readers (lock b))\<rparr>)"
    using assms(1) by (simp add: RLock_def)
  {
    assume "wr k = WNever"
    note fo = fan_out_never [OF assms(4) assms(3) this, of mt msg ks2]
    have "relay_loop b roomName c (Recv mt msg pri wr # rest)
        = (b\<lparr>lock := (lock b)\<lparr>readers := Suc (readers (lock b))\<rparr>\<rparr>,
           fst (fan_out c mt msg wr (ks1 @ k # ks2)), BlockedOnWrite)"
      using fo(1) by (simp add: broadcast_def rl ks)
    with fo(2)
    show "\<exists>evs. relay_loop b roomName c (Recv mt msg pri wr # rest)
                     = (b\<lparr>lock := (lock b)\<lparr>readers := Suc (readers (lock b))\<rparr>\<rparr>, evs, BlockedOnWrite)
                 \<and> map fst (sends evs) = filter (\<lambda>p. p \<noteq> c) ks1 @ [k]"
      by blast
  }
  {
    assume "returns (wr k) \<and> (\<forall>p\<in>set ks2. returns (wr p))"
    with assms(4) have "\<forall>p\<in>set ?ks. returns (wr p)"
      by (auto simp: ks)
    then have ret: "\<forall>p. p |\<in>| fmdom (index_rooms (rooms b) roomName) \<longrightarrow> p \<noteq> c \<longrightarrow> returns (wr p)"
      by (simp add: set_go_range)
    have "relay_loop b roomName c (Recv mt msg pri wr # rest) =
        prepend (fst (fan_out c mt msg wr ?ks)) (relay_loop b roomName c rest)"
      by (rule relay_loop_Recv_returns [OF assms(1) ret])
    moreover have "map fst (sends (fst (fan_out c mt msg wr ?ks))) = filter (\<lambda>p. p \<noteq> c) ?ks"
      by (simp add: broadcast_returns(2) [OF assms(1) ret] comp_def)
    ultimately
    show "\<exists>evs. relay_loop b roomName c (Recv mt msg pri wr # rest)
                     = prepend evs (relay_loop b roomName c rest)
                 \<and> map fst (sends evs) = filter (\<lambda>p. p \<noteq> c) (ks1 @ k # ks2)"
      unfolding ks by blast
  }
qed

theorem sends_are_sequential_witness:
  "snd (snd (relay_loop
      \<lparr>lock = unlocked,
       rooms = fmupd ''lobby'' (fmupd 7 True (fmupd 8 True (fmupd 9 True fmempty))) fmempty\<rparr>
      ''lobby'' 7
      [Recv 1 [104, 105] [8, 9, 7] ((\<lambda>_. WNil)(8 := WNever)), RecvErr ''eof''])) = BlockedOnWrite
   \<and> snd (snd (relay_loop
      \<lparr>lock = unlocked,
       rooms = fmupd ''lobby'' (fmupd 7 True (fmupd 8 True (fmupd 9 True fmempty))) fmempty\<rparr>
      ''lobby'' 7
      [Recv 1 [104, 105] [8, 9, 7] (\<lambda>_. WErr ''reset''), RecvErr ''eof''])) = Returned"
proof -
  let ?b = "\<lparr>lock = unlocked,
       rooms = fmupd ''lobby'' (fmupd (7::nat) True (fmupd 8 True (fmupd 9 True fmempty))) fmempty\<rparr>"
  let ?never = "(\<lambda>_. WNil)(8 := WNever)"
  let ?fail = "\<lambda>_::conn. WErr ''reset''"
  have h1: "\<not> writer (lock ?b)"
    by (simp add: unlocked_def)
  have h2: "go_range (snapshotMembers (rooms ?b) ''lobby'') [8, 9, 7] = [] @ 8 # [9, 7]"
    by (auto simp: snapshotMembers_def index_rooms_def go_range_def range_keys_def)
  have h3: "(8::nat) \<noteq> 7"
    by simp
  have h4: "\<forall>p\<in>set []. returns (?never p)" "\<forall>p\<in>set []. returns (?fail p)"
    by simp_all
  have never: "?never 8 = WNever"
    by simp
  have fail: "returns (?fail 8) \<and> (\<forall>p\<in>set [9, 7]. returns (?fail p))"
    by (simp add: returns_def)
  from sends_are_sequential [OF h1 h2 h3 h4(1), where mt = 1 and msg = "[104, 105]"
      and rest = "[RecvErr ''eof'']"] never
  obtain evs1 where "relay_loop ?b ''lobby'' 7
      [Recv 1 [104, 105] [8, 9, 7] ?never, RecvErr ''eof'']
      = (?b\<lparr>lock := (lock ?b)\<lparr>readers := Suc (readers (lock ?b))\<rparr>\<rparr>, evs1, BlockedOnWrite)"
    by blast
  then have a: "snd (snd (relay_loop ?b ''lobby'' 7
      [Recv 1 [104, 105] [8, 9, 7] ?never, RecvErr ''eof''])) = BlockedOnWrite"
    by (simp only: snd_conv)
  from sends_are_sequential [OF h1 h2 h3 h4(2), where mt = 1 and msg = "[104, 105]"
      and rest = "[RecvErr ''eof'']"] fail
  obtain evs2 where "relay_loop ?b ''lobby'' 7
      [Recv 1 [104, 105] [8, 9, 7] ?fail, RecvErr ''eof'']
      = prepend evs2 (relay_loop ?b ''lobby'' 7 [RecvErr ''eof''])"
    by blast
  then have b: "snd (snd (relay_loop ?b ''lobby'' 7
      [Recv 1 [104, 105] [8, 9, 7] ?fail, RecvErr ''eof''])) = Returned"
    by (simp only: prepend_def relay_loop.simps snd_conv)
  from a b show ?thesis
    by simp
qed

text \<open>
  The claim as the specification states it fails: in a room of the sender 7 and the peers
  8 and 9, where only the write to 8 never returns, peer 9 is never sent the message and
  the second message of the sender is never relayed.
\<close>

theorem unresponsive_peer_stalls_counterexample:
  "relay_loop
     \<lparr>lock = unlocked,
      rooms = fmupd ''lobby'' (fmupd 7 True (fmupd 8 True (fmupd 9 True fmempty))) fmempty\<rparr>
     ''lobby'' 7
     [Recv 1 [104, 105] [8, 9, 7] ((\<lambda>_. WNil)(8 := WNever)),
      Recv 1 [33] [8, 9, 7] (\<lambda>_. WNil)]
   = (\<lparr>lock = \<lparr>readers = 1, writer = False\<rparr>,
       rooms = fmupd ''lobby'' (fmupd 7 True (fmupd 8 True (fmupd 9 True fmempty))) fmempty\<rparr>,
      [WriteMessage 8 1 [104, 105]],
      BlockedOnWrite)
   \<and> ((\<lambda>_. WNil)(8 := WNever)) (9::conn) = WNil
   \<and> 9 |\<in>| fmdom (snapshotMembers
        (fmupd ''lobby'' (fmupd 7 True (fmupd 8 True (fmupd 9 True fmempty))) fmempty) ''lobby'')"
proof -
  let ?m = "fmupd (7::nat) True (fmupd 8 True (fmupd 9 True fmempty))"
  have gr: "go_range ?m [8, 9, 7] = [8, 9, 7]"
    by (auto simp: go_range_def range_keys_def)
  show ?thesis
    by (simp add: unlocked_def broadcast_def RLock_def index_rooms_def gr snapshotMembers_def)
qed

subsection \<open>Cleanup after a panic inside the fan-out\<close>

text \<open>
  Claim C4. The cleanup is deferred (lines 56 and 71) so that it runs on every way out of
  the loop, but the read lock of line 97 is released by the plain call of line 113. The
  room holds the peers 8 and 9 when connection 7 joins it. The session of 7 receives a
  message while the session of 9 is relaying one of its own, so that both write to 8 at
  the same time and the write of 7 to 8 panics. The panic skips line 113, the deferred
  function waits at line 72 for a lock that its own goroutine holds for reading, and
  neither the leave nor the close of the connection ever happens; 7 stays in the room.
\<close>

theorem cleanup_blocked_after_write_panic:
  "handleWebSocket
     \<lparr>lock = unlocked,
      rooms = fmupd ''lobby'' (fmupd 8 True (fmupd 9 True fmempty)) fmempty\<rparr>
     [''room'' \<mapsto> [''lobby'']] (Inr 7)
     [Recv 1 [104, 105] [8, 9, 7] ((\<lambda>_. WNil)(8 := WPanic))]
   = (\<lparr>lock = \<lparr>readers = 1, writer = False\<rparr>,
       rooms = fmupd ''lobby'' (fmupd 7 True (fmupd 8 True (fmupd 9 True fmempty))) fmempty\<rparr>,
      [Upgraded 7, LogConnected ''lobby'' 3, WriteMessage 8 1 [104, 105]],
      BlockedOnLock)"
proof -
  let ?m = "fmupd (7::nat) True (fmupd 8 True (fmupd 9 True fmempty))"
  have gr: "go_range ?m [8, 9, 7] = [8, 9, 7]"
    by (auto simp: go_range_def range_keys_def)
  have len: "go_len ?m = 3"
    by (simp add: go_len_def fcard_finsert_if)
  show ?thesis
    by (simp add: handleWebSocket_def query_get_def unlocked_def Lock_def Unlock_def join_eq
          index_rooms_def relay_loop.simps broadcast_def RLock_def gr len run_defers_def
          cleanup_def prepend_def Let_def)
qed

section \<open>The claim about the entry point\<close>

text \<open>
  Claim C9. \<^verbatim>\<open>main\<close> registers one handler, at the path /ws, bound to the one
  Broadcaster made by \<^verbatim>\<open>NewBroadcaster\<close>; it listens on the port of the variable
  PORT, on 8080 when the variable is unset; when the listener returns an error the
  process logs it and exits with status 1, and otherwise it keeps serving.
\<close>

theorem entry_point:
  "handlers (main_go env listen) = [(''/ws'', NewBroadcaster)]
   \<and> (env ''PORT'' = None \<longrightarrow> listen_addr (main_go env listen) = '':8080'')
   \<and> (\<forall>p. env ''PORT'' = Some p \<and> p \<noteq> [] \<longrightarrow> listen_addr (main_go env listen) = '':'' @ p)
   \<and> (\<forall>err. listen (listen_addr (main_go env listen)) = Some err \<longrightarrow>
         exit_status (main_go env listen) = Some 1
         \<and> log_lines (main_go env listen) = [LogStarting (drop 1 (listen_addr (main_go env listen))), LogFatal err])
   \<and> (listen (listen_addr (main_go env listen)) = None \<longrightarrow> exit_status (main_go env listen) = None)"
  by (auto simp: main_go_def getenv_def Let_def split: option.splits)

theorem entry_point_witness:
  "listen_addr (main_go Map.empty (\<lambda>_. Some ''address already in use'')) = '':8080''
   \<and> exit_status (main_go Map.empty (\<lambda>_. Some ''address already in use'')) = Some 1
   \<and> listen_addr (main_go [''PORT'' \<mapsto> ''9000''] (\<lambda>_. None)) = '':9000''
   \<and> exit_status (main_go [''PORT'' \<mapsto> ''9000''] (\<lambda>_. None)) = None"
  using entry_point [of Map.empty "\<lambda>_. Some ''address already in use''"]
    entry_point [of "[''PORT'' \<mapsto> ''9000'']" "\<lambda>_. None"]
  by simp

end
